theory Spec2Isabelle
  imports Main
begin

section \<open>The scale indexer of the scattering network\<close>

text \<open>
  A shallow embedding of \<^verbatim>\<open>scatcov/scattering_network/scale_indexer.py\<close>.
  A scale path is a tuple of Python integers, here an \<open>int list\<close>. Every exception the
  source can raise is a value of \<open>error\<close>, and a fallible function returns
  \<open>error + 'a\<close> with \<open>Inl\<close> for the exception. The arrays of numpy are lists of
  rows; the one place where the shape of an array matters (an empty table is
  one-dimensional, so a column slice of it raises) is written out. Coordinates are
  mathematical integers: the width of numpy's integer type is not modelled.
\<close>

subsection \<open>Python operations\<close>

datatype error = IndexError | KeyError | ZeroDivisionError | AssertionError

type_synonym path = "int list"

fun ebind :: "error + 'a \<Rightarrow> ('a \<Rightarrow> error + 'b) \<Rightarrow> error + 'b" where
  "ebind (Inl e) f = Inl e"
| "ebind (Inr x) f = f x"

text \<open>A comprehension over fallible calls: the elements are evaluated from left to
  right and the first exception ends the evaluation.\<close>

fun mapM :: "('a \<Rightarrow> error + 'b) \<Rightarrow> 'a list \<Rightarrow> error + 'b list" where
  "mapM f [] = Inr []"
| "mapM f (x # xs) = ebind (f x) (\<lambda>y. ebind (mapM f xs) (\<lambda>ys. Inr (y # ys)))"

fun filterM :: "('a \<Rightarrow> error + bool) \<Rightarrow> 'a list \<Rightarrow> error + 'a list" where
  "filterM f [] = Inr []"
| "filterM f (x # xs) =
     ebind (f x) (\<lambda>b. ebind (filterM f xs) (\<lambda>ys. Inr (if b then x # ys else ys)))"

definition py_getitem :: "'a list \<Rightarrow> int \<Rightarrow> error + 'a" where
  \<comment> \<open>\<^verbatim>\<open>xs[i]\<close>: a negative index counts from the end\<close>
  "py_getitem xs i =
     (let n = int (length xs); k = (if i < 0 then n + i else i)
      in if 0 \<le> k \<and> k < n then Inr (xs ! nat k) else Inl IndexError)"

definition py_floordiv :: "int \<Rightarrow> int \<Rightarrow> error + int" where
  \<comment> \<open>\<^verbatim>\<open>a // b\<close>\<close>
  "py_floordiv a b = (if b = 0 then Inl ZeroDivisionError else Inr (a div b))"

definition py_range :: "int \<Rightarrow> int list" where
  \<comment> \<open>\<^verbatim>\<open>range(n)\<close>\<close>
  "py_range n = [0..n - 1]"

definition py_enumerate :: "'a list \<Rightarrow> (int \<times> 'a) list" where
  \<comment> \<open>\<^verbatim>\<open>enumerate(xs)\<close>, counting from 0\<close>
  "py_enumerate xs = zip (map int [0..<length xs]) xs"

text \<open>A dictionary keeps its items in insertion order; storing under a key that is
  present replaces the value where the key stands.\<close>

fun dict_setitem :: "('k \<times> 'v) list \<Rightarrow> 'k \<Rightarrow> 'v \<Rightarrow> ('k \<times> 'v) list" where
  "dict_setitem [] k v = [(k, v)]"
| "dict_setitem ((k', v') # d) k v =
     (if k' = k then (k, v) # d else (k', v') # dict_setitem d k v)"

definition dict_update :: "('k \<times> 'v) list \<Rightarrow> ('k \<times> 'v) list \<Rightarrow> ('k \<times> 'v) list" where
  "dict_update d items = foldl (\<lambda>acc (k, v). dict_setitem acc k v) d items"

definition dict_getitem :: "('k \<times> 'v) list \<Rightarrow> 'k \<Rightarrow> error + 'v" where
  "dict_getitem d k = (case map_of d k of None \<Rightarrow> Inl KeyError | Some v \<Rightarrow> Inr v)"

text \<open>The order of Python on tuples: lexicographic, a proper prefix first.\<close>

fun tuple_lt :: "int list \<Rightarrow> int list \<Rightarrow> bool" where
  "tuple_lt [] [] = False"
| "tuple_lt [] (y # ys) = True"
| "tuple_lt (x # xs) [] = False"
| "tuple_lt (x # xs) (y # ys) = (x < y \<or> (x = y \<and> tuple_lt xs ys))"

text \<open>\<^verbatim>\<open>sorted\<close> is a stable sort that only asks whether one key is less than
  another; \<open>lt\<close> is that test.\<close>

fun insert_stable :: "('a \<Rightarrow> 'a \<Rightarrow> bool) \<Rightarrow> 'a \<Rightarrow> 'a list \<Rightarrow> 'a list" where
  "insert_stable lt x [] = [x]"
| "insert_stable lt x (y # ys) =
     (if lt x y then x # y # ys else y # insert_stable lt x ys)"

definition py_sorted :: "('a \<Rightarrow> 'a \<Rightarrow> bool) \<Rightarrow> 'a list \<Rightarrow> 'a list" where
  "py_sorted lt xs = foldl (\<lambda>acc x. insert_stable lt x acc) [] xs"

definition cmp_to_key :: "('a \<Rightarrow> 'a \<Rightarrow> int) \<Rightarrow> 'a \<Rightarrow> 'a \<Rightarrow> bool" where
  \<comment> \<open>the \<^verbatim>\<open>__lt__\<close> of the key objects: \<^verbatim>\<open>mycmp(a, b) < 0\<close>\<close>
  "cmp_to_key mycmp a b = (mycmp a b < 0)"

text \<open>\<^verbatim>\<open>np.argsort\<close>, taken as the stable index sort; the default sort of numpy
  does not promise an order among equal values. The only call sorts the values of the
  coding dictionary, which are \<open>0, 0, 1, 2, ...\<close> as soon as one path is enumerated: with
  the stable order the assertion of \<^verbatim>\<open>checks\<close> on them passes, with another order of
  the two zeros it would fail and there would be no object.\<close>

definition np_argsort :: "int list \<Rightarrow> int list" where
  "np_argsort vs = map snd (sort_key fst (zip vs (map int [0..<length vs])))"

text \<open>\<^verbatim>\<open>np.unique(rows, axis=0)\<close>: the distinct rows in lexicographic order.\<close>

definition np_unique :: "int list list \<Rightarrow> int list list" where
  "np_unique rows = remdups_adj (py_sorted tuple_lt rows)"

text \<open>A table built by \<^verbatim>\<open>np.array\<close> from an empty list has one dimension only, and
  slicing its columns raises.\<close>

definition last_column :: "path list \<Rightarrow> error + int list" where
  \<comment> \<open>\<^verbatim>\<open>paths[:, -1]\<close>\<close>
  "last_column paths = (if paths = [] then Inl IndexError else Inr (map last paths))"

definition but_last_column :: "path list \<Rightarrow> error + path list" where
  \<comment> \<open>\<^verbatim>\<open>paths[:, :-1]\<close>\<close>
  "but_last_column paths = (if paths = [] then Inl IndexError else Inr (map butlast paths))"

subsection \<open>The class ScaleIndexer\<close>

record ScaleIndexer =
  J :: int
  Qs :: "int list"
  r_max :: int
  sc_paths :: "path list list"
  p_coding :: "(path \<times> int) list"
  p_decoding :: "(int \<times> path) list"
  sc_idces :: "int list list"
  low_pass_mask :: "bool list list"

definition JQ :: "ScaleIndexer \<Rightarrow> int \<Rightarrow> error + int" where
  "JQ self k = ebind (py_getitem (Qs self) (k - 1)) (\<lambda>q. Inr (J self * q))"

text \<open>The generator inside \<^verbatim>\<open>all(...)\<close> of \<^verbatim>\<open>condition\<close>: the adjacent pairs
  \<open>(i, j)\<close> of the path with their position \<open>order\<close>, tested until one fails.\<close>

fun condition_all :: "int list \<Rightarrow> int \<Rightarrow> path \<Rightarrow> error + bool" where
  "condition_all qs order (i # j # rest) =
     ebind (py_getitem qs order) (\<lambda>q0.
     ebind (py_floordiv i q0) (\<lambda>a.
     ebind (py_getitem qs (order + 1)) (\<lambda>q1.
     ebind (py_floordiv j q1) (\<lambda>b.
     if a < b then condition_all qs (order + 1) (j # rest) else Inr False))))"
| "condition_all qs order [i] = Inr True"
| "condition_all qs order [] = Inr True"

definition condition :: "ScaleIndexer \<Rightarrow> path \<Rightarrow> error + bool" where
  "condition self path =
     (if int (length path) \<le> r_max self then condition_all (Qs self) 0 path else Inr False)"

definition sc_paths_r :: "ScaleIndexer \<Rightarrow> int \<Rightarrow> error + path list" where
  \<comment> \<open>the body of the loop of \<^verbatim>\<open>create_sc_paths\<close> at order \<open>k\<close>\<close>
  "sc_paths_r self k =
     ebind (mapM (\<lambda>ord. ebind (JQ self (ord + 1)) (\<lambda>n. Inr (py_range (n + 1)))) (py_range k))
       (\<lambda>ranges. filterM (condition self) (product_lists ranges))"

definition create_sc_paths :: "ScaleIndexer \<Rightarrow> error + path list list" where
  "create_sc_paths self = mapM (sc_paths_r self) [1..r_max self]"

text \<open>\<^verbatim>\<open>OrderedDict(coding, **d)\<close> copies \<^verbatim>\<open>coding\<close> and stores the items of \<^verbatim>\<open>d\<close>
  into the copy, in their order; \<^verbatim>\<open>d\<close> maps every row of the chained tables to its
  position, which \<^verbatim>\<open>enumerate\<close> counts from 0. The decoding dictionary is filled from
  the items of the coding dictionary, a later item replacing an earlier one with the
  same index.\<close>

definition construct_path_coding_dicts ::
  "ScaleIndexer \<Rightarrow> (path \<times> int) list \<times> (int \<times> path) list" where
  "construct_path_coding_dicts self =
     (let coding = [([], 0)];
          coding = dict_update coding
                     (map (\<lambda>(i, path). (path, i)) (py_enumerate (concat (sc_paths self))));
          decoding = dict_update [] (map (\<lambda>(k, v). (v, k)) coding)
      in (coding, decoding))"

definition get_all_paths :: "ScaleIndexer \<Rightarrow> path list" where
  "get_all_paths self = map fst (p_coding self)"

definition get_all_idces :: "ScaleIndexer \<Rightarrow> int list" where
  "get_all_idces self = map fst (p_decoding self)"

text \<open>In \<^verbatim>\<open>path_to_idx\<close>, \<^verbatim>\<open>np.argmax(path == -1)\<close> is the position of the first
  \<open>-1\<close>, the number of coordinates before it.\<close>

definition path_to_idx :: "ScaleIndexer \<Rightarrow> path \<Rightarrow> error + int" where
  "path_to_idx self path =
     (let path = (if length path > 0 \<and> last path = - 1
                  then take (length (takeWhile (\<lambda>x. x \<noteq> - 1) path)) path
                  else path)
      in dict_getitem (p_coding self) path)"

text \<open>\<^verbatim>\<open>idx_to_path\<close> with \<^verbatim>\<open>squeeze\<close> true, the default, and with \<^verbatim>\<open>squeeze\<close>
  false, where the path is padded with \<^verbatim>\<open>pd.NA\<close> (\<open>None\<close>).\<close>

definition idx_to_path :: "ScaleIndexer \<Rightarrow> int \<Rightarrow> error + path" where
  "idx_to_path self idx =
     (if idx = - 1 then Inr [] else dict_getitem (p_decoding self) idx)"

definition idx_to_path_padded :: "ScaleIndexer \<Rightarrow> int \<Rightarrow> error + int option list" where
  "idx_to_path_padded self idx =
     (if idx = - 1 then Inr []
      else ebind (dict_getitem (p_decoding self) idx) (\<lambda>p.
           Inr (map Some p @ replicate (nat (r_max self - int (length p))) None)))"

definition r :: "ScaleIndexer \<Rightarrow> int \<Rightarrow> error + int" where
  "r self idx = ebind (idx_to_path self idx) (\<lambda>p. Inr (int (length p)))"

definition is_low_pass :: "ScaleIndexer \<Rightarrow> int \<Rightarrow> error + bool" where
  "is_low_pass self idx =
     ebind (idx_to_path self idx) (\<lambda>p.
     ebind (py_getitem p (- 1)) (\<lambda>l.
     ebind (r self idx) (\<lambda>k.
     ebind (JQ self k) (\<lambda>n. Inr (l \<ge> n)))))"

definition create_sc_idces :: "ScaleIndexer \<Rightarrow> error + int list list" where
  "create_sc_idces self =
     mapM (\<lambda>k. ebind (py_getitem (sc_paths self) (k - 1)) (mapM (path_to_idx self)))
       [1..r_max self]"

definition compute_low_pass_mask :: "ScaleIndexer \<Rightarrow> error + bool list list" where
  "compute_low_pass_mask self =
     mapM (\<lambda>(order, paths).
             ebind (last_column paths) (\<lambda>col.
             ebind (JQ self (order + 1)) (\<lambda>n. Inr (map (\<lambda>l. l = n) col))))
       (py_enumerate (take 3 (sc_paths self)))"

text \<open>The two assertions of \<^verbatim>\<open>checks\<close>. The comparison function of the first returns a
  boolean, which \<^verbatim>\<open>cmp_to_key\<close> reads as the integer 0 or 1. In the second,
  \<^verbatim>\<open>np.all(collapsed == previous_order)\<close> is taken as the equality of the two tables.\<close>

definition compare :: "path \<Rightarrow> path \<Rightarrow> bool" where
  "compare t1 t2 =
     ((length t1 = length t2 \<and> tuple_lt t1 t2) \<or> length t1 < length t2)"

definition py_assert :: "bool \<Rightarrow> error + unit" where
  "py_assert b = (if b then Inr () else Inl AssertionError)"

definition checks :: "ScaleIndexer \<Rightarrow> error + unit" where
  "checks self =
     (let argsort = np_argsort (map snd (p_coding self));
          paths = map fst (p_coding self)
      in ebind (mapM (py_getitem paths) argsort) (\<lambda>by_idx.
         ebind (py_assert (py_sorted (cmp_to_key (\<lambda>a b. of_bool (compare a b))) paths = by_idx))
           (\<lambda>_.
         if list_all (\<lambda>q. q = 1) (Qs self) \<and> r_max self \<ge> 2 then
           ebind (py_getitem (sc_paths self) (2 - 1)) (\<lambda>paths2.
           ebind (but_last_column paths2) (\<lambda>cut.
           ebind (py_getitem (sc_paths self) (2 - 2)) (\<lambda>paths1.
           ebind (py_getitem (low_pass_mask self) (2 - 2)) (\<lambda>mask1.
           py_assert (np_unique cut
                      = map fst (filter (\<lambda>(p, m). \<not> m) (zip paths1 mask1)))))))
         else Inr ())))"

text \<open>The constructor: the fields are filled in the order of \<^verbatim>\<open>__init__\<close>, and the
  object exists only if no step raises.\<close>

definition new_self :: "int \<Rightarrow> int list \<Rightarrow> int \<Rightarrow> ScaleIndexer" where
  "new_self j qs rm =
     \<lparr>J = j, Qs = qs, r_max = rm, sc_paths = [], p_coding = [], p_decoding = [],
      sc_idces = [], low_pass_mask = []\<rparr>"

definition ScaleIndexer_init :: "int \<Rightarrow> int list \<Rightarrow> int \<Rightarrow> error + ScaleIndexer" where
  "ScaleIndexer_init j qs rm =
     (let self = new_self j qs rm
      in ebind (create_sc_paths self) (\<lambda>tabs.
         let self = self\<lparr>sc_paths := tabs\<rparr>;
             (coding, decoding) = construct_path_coding_dicts self;
             self = self\<lparr>p_coding := coding, p_decoding := decoding\<rparr>
         in ebind (create_sc_idces self) (\<lambda>idces.
            let self = self\<lparr>sc_idces := idces\<rparr>
            in ebind (compute_low_pass_mask self) (\<lambda>mask.
               let self = self\<lparr>low_pass_mask := mask\<rparr>
               in ebind (checks self) (\<lambda>_. Inr self)))))"

subsection \<open>The indexers of the two concrete scenarios\<close>

text \<open>The objects the constructor builds for octave count 3, densities \<open>[1]\<close>, maximal
  order 1, and for octave count 4, densities \<open>[1, 1]\<close>, maximal order 2 (lemmas
  \<open>init_3_1\<close> and \<open>init_4_11\<close>).\<close>

definition indexer_3_1 :: ScaleIndexer where
  "indexer_3_1 =
     \<lparr>J = 3, Qs = [1], r_max = 1, sc_paths = [[[0], [1], [2], [3]]],
      p_coding = [([], 0), ([0], 0), ([1], 1), ([2], 2), ([3], 3)],
      p_decoding = [(0, [0]), (1, [1]), (2, [2]), (3, [3])],
      sc_idces = [[0, 1, 2, 3]],
      low_pass_mask = [[False, False, False, True]]\<rparr>"

definition indexer_4_11 :: ScaleIndexer where
  "indexer_4_11 =
     \<lparr>J = 4, Qs = [1, 1], r_max = 2,
      sc_paths = [[[0], [1], [2], [3], [4]],
                  [[0, 1], [0, 2], [0, 3], [0, 4], [1, 2], [1, 3], [1, 4], [2, 3], [2, 4],
                   [3, 4]]],
      p_coding = [([], 0), ([0], 0), ([1], 1), ([2], 2), ([3], 3), ([4], 4), ([0, 1], 5),
                  ([0, 2], 6), ([0, 3], 7), ([0, 4], 8), ([1, 2], 9), ([1, 3], 10),
                  ([1, 4], 11), ([2, 3], 12), ([2, 4], 13), ([3, 4], 14)],
      p_decoding = [(0, [0]), (1, [1]), (2, [2]), (3, [3]), (4, [4]), (5, [0, 1]),
                    (6, [0, 2]), (7, [0, 3]), (8, [0, 4]), (9, [1, 2]), (10, [1, 3]),
                    (11, [1, 4]), (12, [2, 3]), (13, [2, 4]), (14, [3, 4])],
      sc_idces = [[0, 1, 2, 3, 4], [5, 6, 7, 8, 9, 10, 11, 12, 13, 14]],
      low_pass_mask = [[False, False, False, False, True],
                       [False, False, False, True, False, False, True, False, True, True]]\<rparr>"

section \<open>Properties\<close>

subsection \<open>Comprehensions and dictionaries\<close>

lemma ebind_Inr_iff: "ebind m f = Inr y \<longleftrightarrow> (\<exists>x. m = Inr x \<and> f x = Inr y)"
  by (cases m) auto

lemma ebind_Inl_iff: "ebind m f = Inl e \<longleftrightarrow> (m = Inl e \<or> (\<exists>x. m = Inr x \<and> f x = Inl e))"
  by (cases m) auto

lemma mapM_Inr_iff: "mapM f xs = Inr ys \<longleftrightarrow> list_all2 (\<lambda>x y. f x = Inr y) xs ys"
proof (induction xs arbitrary: ys)
  case Nil
  show ?case by auto
next
  case (Cons x xs)
  show ?case
    by (cases ys) (auto simp: ebind_Inr_iff Cons.IH)
qed

lemma filterM_Inr:
  assumes "filterM f xs = Inr ys"
  shows "ys = filter (\<lambda>x. f x = Inr True) xs \<and> (\<forall>x\<in>set xs. \<exists>b. f x = Inr b)"
  using assms
proof (induction xs arbitrary: ys)
  case Nil
  then show ?case by simp
next
  case (Cons x xs)
  from Cons.prems obtain b zs where b: "f x = Inr b" and zs: "filterM f xs = Inr zs"
    and ys: "ys = (if b then x # zs else zs)"
    by (auto simp: ebind_Inr_iff)
  from Cons.IH [OF zs] b ys show ?case by auto
qed

lemma filterM_total:
  "(\<forall>x\<in>set xs. \<exists>b. f x = Inr b) \<Longrightarrow> \<exists>ys. filterM f xs = Inr ys"
proof (induction xs)
  case Nil
  show ?case by simp
next
  case (Cons x xs)
  then obtain b ys where "f x = Inr b" "filterM f xs = Inr ys" by auto
  then show ?case by simp
qed

lemma dict_setitem_fresh: "k \<notin> fst ` set d \<Longrightarrow> dict_setitem d k v = d @ [(k, v)]"
  by (induction d k v rule: dict_setitem.induct) auto

lemma dict_update_fresh:
  "distinct (map fst items) \<Longrightarrow> fst ` set items \<inter> fst ` set d = {} \<Longrightarrow>
   dict_update d items = d @ items"
proof (induction items arbitrary: d)
  case Nil
  then show ?case by (simp add: dict_update_def)
next
  case (Cons kv items)
  obtain k v where kv: "kv = (k, v)" by (cases kv)
  have fresh: "k \<notin> fst ` set d" using Cons.prems(2) kv by auto
  have step: "dict_update d (kv # items) = dict_update (d @ [(k, v)]) items"
    by (simp add: dict_update_def kv dict_setitem_fresh [OF fresh])
  have "dict_update (d @ [(k, v)]) items = (d @ [(k, v)]) @ items"
  proof (rule Cons.IH)
    show "distinct (map fst items)" using Cons.prems(1) by simp
    show "fst ` set items \<inter> fst ` set (d @ [(k, v)]) = {}"
      using Cons.prems kv by auto
  qed
  with step kv show ?case by simp
qed

lemma dict_update_Cons:
  "dict_update d ((k, v) # items) = dict_update (dict_setitem d k v) items"
  by (simp add: dict_update_def)

lemma map_fst_py_enumerate: "map fst (py_enumerate xs) = map int [0..<length xs]"
  by (simp add: py_enumerate_def)

lemma map_snd_py_enumerate: "map snd (py_enumerate xs) = xs"
  by (simp add: py_enumerate_def)

lemma distinct_map_int_upt: "distinct (map int [m..<n])"
  by (simp add: distinct_map inj_on_def)

lemma map_of_py_enumerate:
  "map_of (py_enumerate xs) i = (if 0 \<le> i \<and> i < int (length xs) then Some (xs ! nat i) else None)"
proof (cases "0 \<le> i \<and> i < int (length xs)")
  case True
  then have n: "nat i < length xs" by linarith
  have "map_of (zip (map int [0..<length xs]) xs) (map int [0..<length xs] ! nat i) = Some (xs ! nat i)"
    by (rule map_of_zip_nth) (use n in \<open>simp_all add: distinct_map_int_upt\<close>)
  with True n show ?thesis by (simp add: py_enumerate_def)
next
  case False
  then have "i \<notin> fst ` set (py_enumerate xs)"
    by (auto simp: py_enumerate_def dest!: set_zip_leftD)
  then have "map_of (py_enumerate xs) i = None" by (simp add: map_of_eq_None_iff)
  with False show ?thesis by simp
qed


lemma py_enumerate_Cons:
  "py_enumerate (x # xs) = (0, x) # zip (map int [1..<Suc (length xs)]) xs"
  by (simp add: py_enumerate_def upt_conv_Cons del: upt_Suc)

lemma swap_swap: "map (\<lambda>(k, v). (v, k)) (map (\<lambda>(i, p). (p, i)) ys) = ys"
  by (induction ys) auto

lemma map_fst_swap: "map fst (map (\<lambda>(i, p). (p, i)) ys) = map snd ys"
  by (induction ys) auto

lemma coding_explicit:
  assumes "distinct (concat (sc_paths self))" and "[] \<notin> set (concat (sc_paths self))"
  shows "fst (construct_path_coding_dicts self)
         = ([], 0) # map (\<lambda>(i, p). (p, i)) (py_enumerate (concat (sc_paths self)))"
proof -
  let ?flat = "concat (sc_paths self)"
  let ?items = "map (\<lambda>(i, p). (p, i)) (py_enumerate ?flat)"
  have fst_items: "map fst ?items = ?flat"
    by (simp only: map_fst_swap map_snd_py_enumerate)
  have "dict_update [([], 0)] ?items = [([], 0)] @ ?items"
  proof (rule dict_update_fresh)
    show "distinct (map fst ?items)" using assms(1) by (simp only: fst_items)
    have "fst ` set ?items = set ?flat" by (metis fst_items set_map)
    then show "fst ` set ?items \<inter> fst ` set [([], 0::int)] = {}" using assms(2) by auto
  qed
  then show ?thesis by (simp add: construct_path_coding_dicts_def Let_def)
qed

lemma decoding_explicit:
  assumes "distinct (concat (sc_paths self))" and "[] \<notin> set (concat (sc_paths self))"
  shows "snd (construct_path_coding_dicts self)
         = (if concat (sc_paths self) = [] then [(0, [])]
            else py_enumerate (concat (sc_paths self)))"
proof -
  let ?flat = "concat (sc_paths self)"
  have cod: "fst (construct_path_coding_dicts self)
             = ([], 0) # map (\<lambda>(i, p). (p, i)) (py_enumerate ?flat)"
    by (rule coding_explicit [OF assms])
  have dec: "snd (construct_path_coding_dicts self)
             = dict_update [] (map (\<lambda>(k, v). (v, k)) (fst (construct_path_coding_dicts self)))"
    by (simp add: construct_path_coding_dicts_def Let_def)
  have sw: "map (\<lambda>(k, v). (v, k)) (fst (construct_path_coding_dicts self))
            = (0, []) # py_enumerate ?flat"
    by (simp only: cod list.map split swap_swap)
  show ?thesis
  proof (cases ?flat)
    case Nil
    then show ?thesis by (simp add: dec sw py_enumerate_def dict_update_def)
  next
    case (Cons x xs)
    let ?rest = "zip (map int [1..<Suc (length xs)]) xs"
    have keys: "map fst ?rest = map int [1..<Suc (length xs)]" by simp
    have "dict_update [(0, x)] ?rest = [(0, x)] @ ?rest"
    proof (rule dict_update_fresh)
      show "distinct (map fst ?rest)" by (simp only: keys distinct_map_int_upt)
      have "fst ` set ?rest = set (map int [1..<Suc (length xs)])" by (metis keys set_map)
      then show "fst ` set ?rest \<inter> fst ` set [(0::int, x)] = {}" by auto
    qed
    then have "dict_update [] ((0, []) # py_enumerate (x # xs)) = py_enumerate (x # xs)"
      by (simp add: py_enumerate_Cons dict_update_Cons)
    then show ?thesis using Cons by (simp add: dec sw)
  qed
qed

subsection \<open>The admissibility test\<close>

lemma py_getitem_nonneg:
  "0 \<le> i \<Longrightarrow> py_getitem xs i = Inr y \<longleftrightarrow> (i < int (length xs) \<and> y = xs ! nat i)"
  by (auto simp: py_getitem_def Let_def)

lemma py_floordiv_Inr: "py_floordiv a b = Inr c \<longleftrightarrow> (b \<noteq> 0 \<and> c = a div b)"
  by (auto simp: py_floordiv_def)

lemma all_Suc_less_Cons:
  "(\<forall>n. Suc n < length (x # xs) \<longrightarrow> P n) \<longleftrightarrow>
   ((xs \<noteq> [] \<longrightarrow> P 0) \<and> (\<forall>n. Suc n < length xs \<longrightarrow> P (Suc n)))"
proof -
  have "\<And>n. Suc n < length (x # xs) \<longleftrightarrow> (n = 0 \<and> xs \<noteq> []) \<or> (\<exists>m. n = Suc m \<and> Suc m < length xs)"
    by (case_tac n) auto
  then show ?thesis by (simp only:) blast
qed

lemma condition_all_Inr:
  "condition_all qs ord p = Inr b \<Longrightarrow> 0 \<le> ord \<Longrightarrow>
   b = (\<forall>n. Suc n < length p \<longrightarrow>
            p ! n div qs ! (nat ord + n) < p ! Suc n div qs ! (nat ord + Suc n))"
proof (induction p arbitrary: ord b)
  case Nil
  then show ?case by auto
next
  case (Cons i p)
  show ?case
  proof (cases p)
    case Nil
    with Cons.prems show ?thesis by auto
  next
    case (Cons j rest)
    let ?Q = "\<lambda>(p::int list) k n. p ! n div qs ! (k + n) < p ! Suc n div qs ! (k + Suc n)"
    from Cons.prems Cons obtain q0 q1 where
      q0: "py_getitem qs ord = Inr q0" and q1: "py_getitem qs (ord + 1) = Inr q1"
      and nz: "q0 \<noteq> 0" "q1 \<noteq> 0"
      and rest: "(if i div q0 < j div q1 then condition_all qs (ord + 1) p else Inr False) = Inr b"
      by (auto simp: ebind_Inr_iff py_floordiv_Inr)
    from q0 q1 Cons.prems(2) have q0': "q0 = qs ! nat ord" and q1': "q1 = qs ! Suc (nat ord)"
      by (simp_all add: py_getitem_nonneg nat_add_distrib)
    have split: "(\<forall>n. Suc n < length (i # p) \<longrightarrow> ?Q (i # p) (nat ord) n) \<longleftrightarrow>
       (i div q0 < j div q1 \<and> (\<forall>n. Suc n < length p \<longrightarrow> ?Q p (nat (ord + 1)) n))"
      using Cons.prems(2) Cons by (subst all_Suc_less_Cons) (simp add: q0' q1' nat_add_distrib)
    show ?thesis
    proof (cases "i div q0 < j div q1")
      case True
      with rest have "condition_all qs (ord + 1) p = Inr b" by simp
      from Cons.IH [OF this] Cons.prems(2)
      have "b = (\<forall>n. Suc n < length p \<longrightarrow> ?Q p (nat (ord + 1)) n)" by simp
      with True split show ?thesis by simp
    next
      case False
      with rest have "b = False" by simp
      with False split show ?thesis by simp
    qed
  qed
qed

lemma condition_all_total:
  "0 \<le> ord \<Longrightarrow> ord + int (length p) \<le> int (length qs) \<Longrightarrow>
   (\<forall>n < length p. qs ! (nat ord + n) \<noteq> 0) \<Longrightarrow> \<exists>b. condition_all qs ord p = Inr b"
proof (induction p arbitrary: ord)
  case Nil
  show ?case by (intro exI [of _ True]) simp
next
  case (Cons i p)
  show ?case
  proof (cases p)
    case Nil
    then show ?thesis by (intro exI [of _ True]) simp
  next
    case (Cons j rest)
    have q0: "py_getitem qs ord = Inr (qs ! nat ord)"
      and q1: "py_getitem qs (ord + 1) = Inr (qs ! Suc (nat ord))"
      using Cons.prems(1,2) Cons by (simp_all add: py_getitem_nonneg nat_add_distrib)
    have nz: "qs ! nat ord \<noteq> 0" "qs ! Suc (nat ord) \<noteq> 0"
      using Cons.prems(3) [rule_format, of 0] Cons.prems(3) [rule_format, of 1] Cons by simp_all
    have "\<exists>b. condition_all qs (ord + 1) p = Inr b"
    proof (rule Cons.IH)
      show "0 \<le> ord + 1" using Cons.prems(1) by simp
      show "ord + 1 + int (length p) \<le> int (length qs)" using Cons.prems(2) by simp
      show "\<forall>n<length p. qs ! (nat (ord + 1) + n) \<noteq> 0"
      proof (intro allI impI)
        fix n assume "n < length p"
        then have "Suc n < length (i # p)" by simp
        from Cons.prems(3) [rule_format, OF this] Cons.prems(1)
        show "qs ! (nat (ord + 1) + n) \<noteq> 0" by (simp add: nat_add_distrib)
      qed
    qed
    then obtain b where "condition_all qs (ord + 1) p = Inr b" ..
    with q0 q1 nz Cons show ?thesis by (auto simp: py_floordiv_def)
  qed
qed

subsection \<open>The enumerated tables\<close>

lemma ranges_Inr:
  assumes "mapM (\<lambda>ord. ebind (JQ self (ord + 1)) (\<lambda>n. Inr (py_range (n + 1)))) (py_range k) = Inr ranges"
  shows "nat k \<le> length (Qs self)"
    and "ranges = map (\<lambda>i. [0..J self * Qs self ! i]) [0..<nat k]"
proof -
  let ?f = "\<lambda>ord. ebind (JQ self (ord + 1)) (\<lambda>n. Inr (py_range (n + 1)))"
  from assms have all2: "list_all2 (\<lambda>x y. ?f x = Inr y) [0..k - 1] ranges"
    by (simp add: mapM_Inr_iff py_range_def)
  then have len: "length ranges = nat k" by (auto dest: list_all2_lengthD)
  have nth: "int i < int (length (Qs self)) \<and> ranges ! i = [0..J self * Qs self ! i]"
    if "i < nat k" for i
  proof -
    from that have "[0..k - 1] ! i = int i" by simp
    with all2 that have "?f (int i) = Inr (ranges ! i)"
      by (auto simp: list_all2_conv_all_nth)
    then show ?thesis
      by (auto simp: JQ_def ebind_Inr_iff py_getitem_nonneg py_range_def)
  qed
  show "nat k \<le> length (Qs self)"
  proof (cases "nat k")
    case 0
    then show ?thesis by simp
  next
    case (Suc m)
    then have "m < nat k" by simp
    from nth [OF this] Suc show ?thesis by simp
  qed
  show "ranges = map (\<lambda>i. [0..J self * Qs self ! i]) [0..<nat k]"
    by (rule nth_equalityI) (simp_all add: len nth)
qed

lemma in_product_ranges:
  "p \<in> set (product_lists (map (\<lambda>i. [0..f i]) [0..<n])) \<longleftrightarrow>
   length p = n \<and> (\<forall>i<n. 0 \<le> p ! i \<and> p ! i \<le> f i)"
  by (auto simp: product_lists_set list_all2_conv_all_nth)

lemma sc_paths_r_Inr:
  assumes "sc_paths_r self k = Inr tab"
  shows "nat k \<le> length (Qs self)"
    and "tab = filter (\<lambda>p. condition self p = Inr True)
                 (product_lists (map (\<lambda>i. [0..J self * Qs self ! i]) [0..<nat k]))"
    and "\<forall>p\<in>set (product_lists (map (\<lambda>i. [0..J self * Qs self ! i]) [0..<nat k])).
           \<exists>b. condition self p = Inr b"
proof -
  from assms obtain ranges where
    rs: "mapM (\<lambda>ord. ebind (JQ self (ord + 1)) (\<lambda>n. Inr (py_range (n + 1)))) (py_range k) = Inr ranges"
    and fl: "filterM (condition self) (product_lists ranges) = Inr tab"
    by (auto simp: sc_paths_r_def ebind_Inr_iff)
  note r = ranges_Inr [OF rs]
  show "nat k \<le> length (Qs self)" by (rule r(1))
  from filterM_Inr [OF fl] r(2)
  show "tab = filter (\<lambda>p. condition self p = Inr True)
                 (product_lists (map (\<lambda>i. [0..J self * Qs self ! i]) [0..<nat k]))"
    and "\<forall>p\<in>set (product_lists (map (\<lambda>i. [0..J self * Qs self ! i]) [0..<nat k])).
           \<exists>b. condition self p = Inr b"
    by simp_all
qed

lemma mem_sc_paths_r:
  assumes "sc_paths_r self k = Inr tab" and "1 \<le> k" and "k \<le> r_max self"
  shows "p \<in> set tab \<longleftrightarrow>
     length p = nat k \<and> (\<forall>i<nat k. 0 \<le> p ! i \<and> p ! i \<le> J self * Qs self ! i) \<and>
     (\<forall>n. Suc n < nat k \<longrightarrow> p ! n div Qs self ! n < p ! Suc n div Qs self ! Suc n)"
proof (cases "length p = nat k \<and> (\<forall>i<nat k. 0 \<le> p ! i \<and> p ! i \<le> J self * Qs self ! i)")
  case True
  note r = sc_paths_r_Inr [OF assms(1)]
  from True have inp: "p \<in> set (product_lists (map (\<lambda>i. [0..J self * Qs self ! i]) [0..<nat k]))"
    by (simp add: in_product_ranges)
  with r(3) obtain b where b: "condition self p = Inr b" by blast
  have "int (length p) \<le> r_max self" using True assms(2,3) by simp
  with b have "condition_all (Qs self) 0 p = Inr b" by (simp add: condition_def)
  from condition_all_Inr [OF this] True
  have "b = (\<forall>n. Suc n < nat k \<longrightarrow> p ! n div Qs self ! n < p ! Suc n div Qs self ! Suc n)"
    by simp
  moreover have "p \<in> set tab \<longleftrightarrow> b" using r(2) inp b by simp
  ultimately show ?thesis using True by simp
next
  case False
  then have "p \<notin> set (product_lists (map (\<lambda>i. [0..J self * Qs self ! i]) [0..<nat k]))"
    by (simp add: in_product_ranges)
  then have "p \<notin> set tab" using sc_paths_r_Inr(2) [OF assms(1)] by simp
  with False show ?thesis by blast
qed

lemma create_sc_paths_Inr:
  assumes "create_sc_paths self = Inr tabs"
  shows "length tabs = nat (r_max self)"
    and "\<And>i. i < nat (r_max self) \<Longrightarrow> sc_paths_r self (int i + 1) = Inr (tabs ! i)"
proof -
  from assms have all2: "list_all2 (\<lambda>k tab. sc_paths_r self k = Inr tab) [1..r_max self] tabs"
    by (simp add: create_sc_paths_def mapM_Inr_iff)
  then show len: "length tabs = nat (r_max self)" by (auto dest: list_all2_lengthD)
  fix i assume i: "i < nat (r_max self)"
  then have "[1..r_max self] ! i = 1 + int i" by simp
  with all2 i show "sc_paths_r self (int i + 1) = Inr (tabs ! i)"
    by (auto simp: list_all2_conv_all_nth add.commute)
qed

lemma condition_indep:
  "Qs a = Qs b \<Longrightarrow> r_max a = r_max b \<Longrightarrow> condition a = condition b"
  by (intro ext) (simp add: condition_def)

lemma sc_paths_r_indep:
  "J a = J b \<Longrightarrow> Qs a = Qs b \<Longrightarrow> r_max a = r_max b \<Longrightarrow> sc_paths_r a = sc_paths_r b"
  by (intro ext) (simp add: sc_paths_r_def JQ_def condition_indep [of a b])

lemma create_sc_paths_indep:
  "J a = J b \<Longrightarrow> Qs a = Qs b \<Longrightarrow> r_max a = r_max b \<Longrightarrow> create_sc_paths a = create_sc_paths b"
  by (simp add: create_sc_paths_def sc_paths_r_indep [of a b])

lemma construct_indep:
  "sc_paths a = sc_paths b \<Longrightarrow> construct_path_coding_dicts a = construct_path_coding_dicts b"
  by (simp add: construct_path_coding_dicts_def)

lemma init_fields:
  assumes "ScaleIndexer_init j qs rm = Inr self"
  shows "J self = j" and "Qs self = qs" and "r_max self = rm"
    and "create_sc_paths self = Inr (sc_paths self)"
    and "p_coding self = fst (construct_path_coding_dicts self)"
    and "p_decoding self = snd (construct_path_coding_dicts self)"
proof -
  from assms obtain tabs idces mask where
    tabs: "create_sc_paths (new_self j qs rm) = Inr tabs"
    and self: "self = (new_self j qs rm)\<lparr>sc_paths := tabs,
         p_coding := fst (construct_path_coding_dicts ((new_self j qs rm)\<lparr>sc_paths := tabs\<rparr>)),
         p_decoding := snd (construct_path_coding_dicts ((new_self j qs rm)\<lparr>sc_paths := tabs\<rparr>)),
         sc_idces := idces, low_pass_mask := mask\<rparr>"
    by (auto simp: ScaleIndexer_init_def Let_def ebind_Inr_iff case_prod_unfold)
  show "J self = j" "Qs self = qs" "r_max self = rm"
    by (simp_all add: self new_self_def)
  have "create_sc_paths self = create_sc_paths (new_self j qs rm)"
    by (rule create_sc_paths_indep) (simp_all add: self)
  with tabs show "create_sc_paths self = Inr (sc_paths self)" by (simp add: self)
  have "construct_path_coding_dicts self
        = construct_path_coding_dicts ((new_self j qs rm)\<lparr>sc_paths := tabs\<rparr>)"
    by (rule construct_indep) (simp add: self)
  then show "p_coding self = fst (construct_path_coding_dicts self)"
    and "p_decoding self = snd (construct_path_coding_dicts self)"
    by (simp_all add: self)
qed

text \<open>The enumeration returns whenever there is a nonzero density for every order.\<close>

lemma mapM_total: "(\<forall>x\<in>set xs. \<exists>y. f x = Inr y) \<Longrightarrow> \<exists>ys. mapM f xs = Inr ys"
proof (induction xs)
  case Nil
  show ?case by simp
next
  case (Cons x xs)
  then obtain y ys where "f x = Inr y" "mapM f xs = Inr ys" by auto
  then show ?case by simp
qed

lemma sc_paths_r_total:
  assumes "k \<le> r_max self" and "nat k \<le> length (Qs self)"
    and "\<forall>i<nat k. Qs self ! i \<noteq> 0"
  shows "\<exists>tab. sc_paths_r self k = Inr tab"
proof -
  let ?f = "\<lambda>ord. ebind (JQ self (ord + 1)) (\<lambda>n. Inr (py_range (n + 1)))"
  have "\<forall>ord\<in>set (py_range k). \<exists>y. ?f ord = Inr y"
  proof
    fix ord assume "ord \<in> set (py_range k)"
    then have "0 \<le> ord" "ord < k" by (simp_all add: py_range_def)
    with assms(2) have "py_getitem (Qs self) ord = Inr (Qs self ! nat ord)"
      by (subst py_getitem_nonneg) auto
    then show "\<exists>y. ?f ord = Inr y" by (simp add: JQ_def)
  qed
  from mapM_total [OF this] obtain ranges where rs: "mapM ?f (py_range k) = Inr ranges" ..
  note r = ranges_Inr(2) [OF rs]
  have "\<forall>p\<in>set (product_lists ranges). \<exists>b. condition self p = Inr b"
  proof
    fix p assume "p \<in> set (product_lists ranges)"
    then have len: "length p = nat k" by (simp add: r in_product_ranges)
    show "\<exists>b. condition self p = Inr b"
    proof (cases "int (length p) \<le> r_max self")
      case True
      have "\<exists>b. condition_all (Qs self) 0 p = Inr b"
      proof (rule condition_all_total)
        show "(0::int) \<le> 0" by simp
        show "0 + int (length p) \<le> int (length (Qs self))" using len assms(2) by linarith
        show "\<forall>n<length p. Qs self ! (nat 0 + n) \<noteq> 0" using len assms(3) by simp
      qed
      with True show ?thesis by (simp add: condition_def)
    next
      case False
      then show ?thesis by (auto simp: condition_def)
    qed
  qed
  from filterM_total [OF this] rs show ?thesis by (auto simp: sc_paths_r_def)
qed

lemma create_sc_paths_total:
  assumes "nat (r_max self) \<le> length (Qs self)"
    and "\<forall>i<nat (r_max self). Qs self ! i \<noteq> 0"
  shows "\<exists>tabs. create_sc_paths self = Inr tabs"
  unfolding create_sc_paths_def
proof (rule mapM_total, rule ballI)
  fix k assume "k \<in> set [1..r_max self]"
  then have k: "1 \<le> k" "k \<le> r_max self" by simp_all
  show "\<exists>y. sc_paths_r self k = Inr y"
  proof (rule sc_paths_r_total [OF k(2)])
    from k assms(1) show "nat k \<le> length (Qs self)" by linarith
    from k assms(2) show "\<forall>i<nat k. Qs self ! i \<noteq> 0" by auto
  qed
qed

subsection \<open>The order of the enumeration\<close>

lemma tuple_lt_irrefl: "\<not> tuple_lt p p"
  by (induction p) auto

lemma tuple_lt_asym: "tuple_lt p q \<Longrightarrow> \<not> tuple_lt q p"
  by (induction p q rule: tuple_lt.induct) auto

lemma compare_irrefl: "\<not> compare p p"
  by (simp add: compare_def tuple_lt_irrefl)

lemma compare_asym: "compare p q \<Longrightarrow> \<not> compare q p"
  by (auto simp: compare_def dest: tuple_lt_asym)

lemma sorted_wrt_Cons_block:
  "sorted_wrt tuple_lt ps \<Longrightarrow> sorted_wrt tuple_lt (map ((#) x) ps)"
  by (simp add: sorted_wrt_map)

lemma sorted_product_step:
  assumes "sorted_wrt tuple_lt ps" and "sorted_wrt (<) xs"
  shows "sorted_wrt tuple_lt (concat (map (\<lambda>x. map ((#) x) ps) xs))"
  using assms(2)
proof (induction xs)
  case Nil
  show ?case by simp
next
  case (Cons x xs)
  have "tuple_lt a b" if "a \<in> set (map ((#) x) ps)"
    and "b \<in> set (concat (map (\<lambda>x. map ((#) x) ps) xs))" for a b
  proof -
    from that obtain a' y b' where "a = x # a'" "b = y # b'" "y \<in> set xs" by auto
    with Cons.prems show ?thesis by auto
  qed
  with Cons sorted_wrt_Cons_block [OF assms(1), of x] show ?case
    by (simp add: sorted_wrt_append)
qed

lemma sorted_product_lists:
  "(\<forall>xs\<in>set xss. sorted_wrt (<) xs) \<Longrightarrow> sorted_wrt tuple_lt (product_lists xss)"
  by (induction xss) (simp_all add: sorted_product_step)

lemma sc_paths_r_sorted:
  assumes "sc_paths_r self k = Inr tab"
  shows "sorted_wrt tuple_lt tab"
proof -
  have "sorted_wrt tuple_lt (product_lists (map (\<lambda>i. [0..J self * Qs self ! i]) [0..<nat k]))"
    by (rule sorted_product_lists) auto
  then show ?thesis
    by (subst sc_paths_r_Inr(2) [OF assms]) (rule sorted_wrt_filter)
qed

lemma sc_paths_r_shape:
  assumes "sc_paths_r self k = Inr tab" and "p \<in> set tab"
  shows "length p = nat k" and "\<forall>x\<in>set p. 0 \<le> x"
proof -
  from assms have "p \<in> set (product_lists (map (\<lambda>i. [0..J self * Qs self ! i]) [0..<nat k]))"
    by (subst (asm) (2) sc_paths_r_Inr(2) [OF assms(1)]) simp
  then have *: "length p = nat k \<and> (\<forall>i<nat k. 0 \<le> p ! i \<and> p ! i \<le> J self * Qs self ! i)"
    by (simp add: in_product_ranges)
  then show "length p = nat k" by simp
  from * show "\<forall>x\<in>set p. 0 \<le> x" by (auto simp: in_set_conv_nth)
qed

lemma in_concat_nth:
  assumes "p \<in> set (concat tabs)"
  obtains i where "i < length tabs" and "p \<in> set (tabs ! i)"
proof -
  from assms obtain t where t: "t \<in> set tabs" "p \<in> set t" by auto
  then obtain i where "i < length tabs" "tabs ! i = t" by (auto simp: in_set_conv_nth)
  with t that show thesis by blast
qed

lemma concat_sorted_by_length:
  assumes "\<And>i. i < length tabs \<Longrightarrow> sorted_wrt tuple_lt (tabs ! i)"
    and "\<And>i p. i < length tabs \<Longrightarrow> p \<in> set (tabs ! i) \<Longrightarrow> length p = Suc i"
  shows "sorted_wrt compare (concat tabs)"
  using assms
proof (induction tabs rule: rev_induct)
  case Nil
  show ?case by simp
next
  case (snoc t tabs)
  have IH: "sorted_wrt compare (concat tabs)"
  proof (rule snoc.IH)
    fix i assume "i < length tabs"
    then show "sorted_wrt tuple_lt (tabs ! i)"
      using snoc.prems(1) [of i] by (simp add: nth_append)
  next
    fix i p assume "i < length tabs" "p \<in> set (tabs ! i)"
    then show "length p = Suc i"
      using snoc.prems(2) [of i p] by (simp add: nth_append)
  qed
  have t_sorted: "sorted_wrt tuple_lt t"
    using snoc.prems(1) [of "length tabs"] by simp
  have t_len: "length p = Suc (length tabs)" if "p \<in> set t" for p
    using snoc.prems(2) [of "length tabs" p] that by simp
  have before: "length p \<le> length tabs" if "p \<in> set (concat tabs)" for p
  proof -
    from that obtain i where "i < length tabs" "p \<in> set (tabs ! i)"
      by (rule in_concat_nth)
    with snoc.prems(2) [of i p] show ?thesis by (simp add: nth_append)
  qed
  have "sorted_wrt compare t"
    by (rule sorted_wrt_mono_rel [OF _ t_sorted]) (simp add: compare_def t_len)
  moreover have "\<forall>p\<in>set (concat tabs). \<forall>q\<in>set t. compare p q"
    using before t_len by (fastforce simp: compare_def)
  ultimately show ?case using IH by (simp add: sorted_wrt_append)
qed

lemma create_sc_paths_flat:
  assumes "create_sc_paths self = Inr tabs"
  shows "sorted_wrt compare (concat tabs)"
    and "\<forall>p\<in>set (concat tabs). p \<noteq> [] \<and> (\<forall>x\<in>set p. 0 \<le> x)"
proof -
  note c = create_sc_paths_Inr [OF assms]
  show "sorted_wrt compare (concat tabs)"
  proof (rule concat_sorted_by_length)
    fix i assume "i < length tabs"
    then show "sorted_wrt tuple_lt (tabs ! i)"
      using c by (auto intro: sc_paths_r_sorted)
  next
    fix i p assume "i < length tabs" "p \<in> set (tabs ! i)"
    then show "length p = Suc i"
      using c(2) [of i] sc_paths_r_shape(1) [of self "int i + 1" "tabs ! i" p] c(1) by simp
  qed
  show "\<forall>p\<in>set (concat tabs). p \<noteq> [] \<and> (\<forall>x\<in>set p. 0 \<le> x)"
  proof
    fix p assume "p \<in> set (concat tabs)"
    then obtain i where i: "i < length tabs" "p \<in> set (tabs ! i)"
      by (rule in_concat_nth)
    then have r: "sc_paths_r self (int i + 1) = Inr (tabs ! i)" using c by simp
    from sc_paths_r_shape [OF r i(2)] show "p \<noteq> [] \<and> (\<forall>x\<in>set p. 0 \<le> x)" by auto
  qed
qed

lemma sorted_wrt_compare_distinct: "sorted_wrt compare ps \<Longrightarrow> distinct ps"
  by (induction ps) (auto simp: compare_irrefl)

lemma sorted_wrt_compare_nth:
  assumes "sorted_wrt compare ps" and "a < length ps" and "b < length ps"
  shows "compare (ps ! a) (ps ! b) \<longleftrightarrow> a < b"
proof
  assume "a < b"
  with assms show "compare (ps ! a) (ps ! b)" by (simp add: sorted_wrt_nth_less)
next
  assume c: "compare (ps ! a) (ps ! b)"
  show "a < b"
  proof (rule ccontr)
    assume "\<not> a < b"
    then consider "a = b" | "b < a" by linarith
    then show False
    proof cases
      case 1
      with c show False by (simp add: compare_irrefl)
    next
      case 2
      with assms have "compare (ps ! b) (ps ! a)" by (simp add: sorted_wrt_nth_less)
      with c show False by (simp add: compare_asym)
    qed
  qed
qed

subsection \<open>The coding and decoding maps of a constructed indexer\<close>

lemma swap_py_enumerate:
  "map (\<lambda>(i, p). (p, i)) (py_enumerate xs) = zip xs (map int [0..<length xs])"
  unfolding py_enumerate_def by (subst zip_commute) (simp add: comp_def case_prod_unfold)

lemma init_tables:
  assumes "ScaleIndexer_init j qs rm = Inr self"
  shows "sorted_wrt compare (concat (sc_paths self))"
    and "\<forall>p\<in>set (concat (sc_paths self)). p \<noteq> [] \<and> (\<forall>x\<in>set p. 0 \<le> x)"
    and "p_coding self = ([], 0) # zip (concat (sc_paths self))
                                     (map int [0..<length (concat (sc_paths self))])"
    and "p_decoding self = (if concat (sc_paths self) = [] then [(0, [])]
                            else py_enumerate (concat (sc_paths self)))"
proof -
  note f = init_fields [OF assms]
  note t = create_sc_paths_flat [OF f(4)]
  show "sorted_wrt compare (concat (sc_paths self))" by (rule t(1))
  show ne: "\<forall>p\<in>set (concat (sc_paths self)). p \<noteq> [] \<and> (\<forall>x\<in>set p. 0 \<le> x)" by (rule t(2))
  have d: "distinct (concat (sc_paths self))" by (rule sorted_wrt_compare_distinct [OF t(1)])
  have n: "[] \<notin> set (concat (sc_paths self))" using ne by blast
  show "p_coding self = ([], 0) # zip (concat (sc_paths self))
                                     (map int [0..<length (concat (sc_paths self))])"
    by (simp only: f(5) coding_explicit [OF d n] swap_py_enumerate)
  show "p_decoding self = (if concat (sc_paths self) = [] then [(0, [])]
                            else py_enumerate (concat (sc_paths self)))"
    by (simp only: f(6) decoding_explicit [OF d n])
qed

lemma get_all_paths_init:
  assumes "ScaleIndexer_init j qs rm = Inr self"
  shows "get_all_paths self = [] # concat (sc_paths self)"
  by (simp add: get_all_paths_def init_tables(3) [OF assms])

lemma decoding_keys:
  "map fst (if flat = [] then [(0::int, [])] else py_enumerate flat)
   = map int [0..<max 1 (length flat)]"
proof (cases "flat = []")
  case True
  then show ?thesis by simp
next
  case False
  then have "max 1 (length flat) = length flat" by (cases flat) simp_all
  with False show ?thesis by (simp only: if_False map_fst_py_enumerate)
qed

lemma get_all_idces_init:
  assumes "ScaleIndexer_init j qs rm = Inr self"
  shows "get_all_idces self = map int [0..<max 1 (length (concat (sc_paths self)))]"
  unfolding get_all_idces_def init_tables(4) [OF assms] by (rule decoding_keys)

lemma truncate_nonneg:
  assumes "\<forall>x\<in>set p. (0::int) \<le> x"
  shows "(if length p > 0 \<and> last p = - 1
          then take (length (takeWhile (\<lambda>x. x \<noteq> - 1) p)) p else p) = p"
proof -
  have "last p \<noteq> - 1" if "p \<noteq> []"
    using assms last_in_set [OF that] by force
  then show ?thesis by auto
qed

lemma path_to_idx_Nil:
  assumes "ScaleIndexer_init j qs rm = Inr self"
  shows "path_to_idx self [] = Inr 0"
  by (simp add: path_to_idx_def dict_getitem_def init_tables(3) [OF assms])

lemma path_to_idx_nth:
  assumes "ScaleIndexer_init j qs rm = Inr self" and "k < length (concat (sc_paths self))"
  shows "path_to_idx self (concat (sc_paths self) ! k) = Inr (int k)"
proof -
  let ?flat = "concat (sc_paths self)"
  note t = init_tables [OF assms(1)]
  have mem: "?flat ! k \<in> set ?flat" using assms(2) by (rule nth_mem)
  with t(2) have ne: "?flat ! k \<noteq> []" and nn: "\<forall>x\<in>set (?flat ! k). 0 \<le> x" by blast+
  have "map_of (zip ?flat (map int [0..<length ?flat])) (?flat ! k)
        = Some (map int [0..<length ?flat] ! k)"
    by (rule map_of_zip_nth)
       (use assms(2) sorted_wrt_compare_distinct [OF t(1)] in simp_all)
  with ne assms(2) have "map_of (p_coding self) (?flat ! k) = Some (int k)"
    by (simp add: t(3))
  then show ?thesis
    unfolding path_to_idx_def Let_def truncate_nonneg [OF nn]
    by (simp add: dict_getitem_def)
qed

lemma decoding_lookup:
  "map_of (if flat = [] then [(0::int, [])] else py_enumerate flat) i
   = (if 0 \<le> i \<and> i < int (length flat) then Some (flat ! nat i)
      else if i = 0 then Some [] else None)"
  by (cases flat) (auto simp: map_of_py_enumerate)

lemma idx_to_path_nth:
  assumes "ScaleIndexer_init j qs rm = Inr self" and "k < length (concat (sc_paths self))"
  shows "idx_to_path self (int k) = Inr (concat (sc_paths self) ! k)"
  using assms(2)
  unfolding idx_to_path_def dict_getitem_def init_tables(4) [OF assms(1)] decoding_lookup
  by simp

lemma idx_to_path_KeyError:
  assumes "ScaleIndexer_init j qs rm = Inr self"
  shows "idx_to_path self i = Inl KeyError \<longleftrightarrow>
         i \<noteq> - 1 \<and> \<not> (0 \<le> i \<and> i < max 1 (int (length (concat (sc_paths self)))))"
  unfolding idx_to_path_def dict_getitem_def init_tables(4) [OF assms] decoding_lookup
  by auto

section \<open>The claims\<close>

lemma init_3_1: "ScaleIndexer_init 3 [1] 1 = Inr indexer_3_1"
  by code_simp

lemma init_4_11: "ScaleIndexer_init 4 [1, 1] 2 = Inr indexer_4_11"
  by code_simp


lemma decode_zero:
  "flat = [] \<Longrightarrow> dict_getitem (if flat = [] then [(0::int, [])] else py_enumerate flat) 0 = Inr []"
  by (simp add: dict_getitem_def)

lemma idx_to_path_zero_empty:
  assumes "ScaleIndexer_init j qs rm = Inr self" and "concat (sc_paths self) = []"
  shows "idx_to_path self 0 = Inr []"
proof -
  have "dict_getitem (p_decoding self) 0 = Inr []"
    unfolding init_tables(4) [OF assms(1)] using assms(2) by (rule decode_zero)
  then show ?thesis by (simp add: idx_to_path_def)
qed

lemma in_idces_cases:
  assumes "i \<in> set (map int [0..<max 1 (length flat)])"
  obtains "flat = []" and "i = 0" | n where "n < length flat" and "i = int n"
proof (cases "flat = []")
  case True
  with assms have "i = 0" by simp
  with True that(1) show thesis by blast
next
  case False
  then have "max 1 (length flat) = length flat" by (cases flat) simp_all
  with assms obtain n where "n < length flat" "i = int n" by auto
  with that(2) show thesis by blast
qed

subsection \<open>C1: coding and decoding\<close>

text \<open>
  Claim C1, as amended. For an indexer that the constructor returned, every enumerated
  path \<open>p\<close> of order at least 1 satisfies \<open>idx_to_path(path_to_idx(p)) = p\<close> (with
  \<^verbatim>\<open>squeeze\<close> true), and every assigned index \<open>i\<close>, that is every key of the decoding
  dictionary, satisfies \<open>path_to_idx(idx_to_path(i)) = i\<close>.
\<close>

theorem coding_roundtrip:
  assumes "ScaleIndexer_init j qs rm = Inr self"
  shows "(p \<in> set (concat (sc_paths self)) \<longrightarrow>
            ebind (path_to_idx self p) (idx_to_path self) = Inr p) \<and>
         (i \<in> set (get_all_idces self) \<longrightarrow>
            ebind (idx_to_path self i) (path_to_idx self) = Inr i)"
proof (intro conjI impI)
  assume "p \<in> set (concat (sc_paths self))"
  then obtain k where k: "k < length (concat (sc_paths self))" "concat (sc_paths self) ! k = p"
    by (auto simp only: in_set_conv_nth)
  from path_to_idx_nth [OF assms k(1)] idx_to_path_nth [OF assms k(1)] k(2)
  show "ebind (path_to_idx self p) (idx_to_path self) = Inr p" by simp
next
  assume "i \<in> set (get_all_idces self)"
  then have "i \<in> set (map int [0..<max 1 (length (concat (sc_paths self)))])"
    by (simp only: get_all_idces_init [OF assms])
  then show "ebind (idx_to_path self i) (path_to_idx self) = Inr i"
  proof (cases rule: in_idces_cases)
    case 1
    with idx_to_path_zero_empty [OF assms] path_to_idx_Nil [OF assms]
    show ?thesis by simp
  next
    case (2 n)
    with path_to_idx_nth [OF assms 2(1)] idx_to_path_nth [OF assms 2(1)]
    show ?thesis by simp
  qed
qed

theorem coding_roundtrip_witness:
  "ScaleIndexer_init 3 [1] 1 = Inr indexer_3_1 \<and>
   [2] \<in> set (concat (sc_paths indexer_3_1)) \<and>
   ebind (path_to_idx indexer_3_1 [2]) (idx_to_path indexer_3_1) = Inr [2] \<and>
   3 \<in> set (get_all_idces indexer_3_1) \<and>
   ebind (idx_to_path indexer_3_1 3) (path_to_idx indexer_3_1) = Inr 3"
proof -
  have a: "[2] \<in> set (concat (sc_paths indexer_3_1))" by code_simp
  have b: "3 \<in> set (get_all_idces indexer_3_1)" by code_simp
  from coding_roundtrip [OF init_3_1, of "[2]" 3] a b init_3_1 show ?thesis by blast
qed

text \<open>
  The claim as written includes the empty path, and there it fails: with octave count 3,
  densities \<open>[1]\<close> and maximal order 1 the empty path is coded as 0, and 0 decodes to the
  path \<open>(0,)\<close>, because \<^verbatim>\<open>enumerate\<close> counts the enumerated paths from 0.
\<close>

theorem coding_roundtrip_counterexample:
  "ScaleIndexer_init 3 [1] 1 = Inr indexer_3_1 \<and>
   [] \<in> set (get_all_paths indexer_3_1) \<and>
   ebind (path_to_idx indexer_3_1 []) (idx_to_path indexer_3_1) = Inr [0]"
  by (rule conjI, rule init_3_1) code_simp

subsection \<open>C2: the empty path and the first index\<close>

text \<open>
  Claim C2, as amended. For an indexer that the constructor returned,
  \<open>path_to_idx(())\<close> is 0, \<open>idx_to_path(-1)\<close> is the empty tuple, the keys of the coding
  dictionary are the empty path followed by the paths of order 1, then of order 2, and so
  on, in enumeration order, and the \<open>k\<close>-th of these enumerated paths, counted from 0, has
  index \<open>k\<close>: the enumerated paths receive consecutive integers starting at 0.
\<close>

theorem numbering_from_zero:
  assumes "ScaleIndexer_init j qs rm = Inr self"
  shows "path_to_idx self [] = Inr 0 \<and> idx_to_path self (- 1) = Inr [] \<and>
         get_all_paths self = [] # concat (sc_paths self) \<and>
         (k < length (concat (sc_paths self)) \<longrightarrow>
            path_to_idx self (concat (sc_paths self) ! k) = Inr (int k))"
  using path_to_idx_Nil [OF assms] get_all_paths_init [OF assms] path_to_idx_nth [OF assms, of k]
  by (simp add: idx_to_path_def)

theorem numbering_from_zero_witness:
  "ScaleIndexer_init 3 [1] 1 = Inr indexer_3_1 \<and>
   path_to_idx indexer_3_1 [] = Inr 0 \<and> idx_to_path indexer_3_1 (- 1) = Inr [] \<and>
   get_all_paths indexer_3_1 = [[], [0], [1], [2], [3]] \<and>
   2 < length (concat (sc_paths indexer_3_1)) \<and>
   concat (sc_paths indexer_3_1) ! 2 = [2] \<and> path_to_idx indexer_3_1 [2] = Inr 2"
proof -
  have a: "2 < length (concat (sc_paths indexer_3_1))" by code_simp
  have b: "concat (sc_paths indexer_3_1) ! 2 = [2]" by code_simp
  have c: "[] # concat (sc_paths indexer_3_1) = [[], [0], [1], [2], [3]]" by code_simp
  from numbering_from_zero [OF init_3_1, of 2] a b c init_3_1 show ?thesis by simp
qed

text \<open>
  The claim as written numbers the paths from 1 and decodes 0 to the empty tuple. In the
  scenario with octave count 3, densities \<open>[1]\<close> and maximal order 1, index 0 decodes to
  \<open>(0,)\<close> and the four paths of order 1 have the indices 0, 1, 2, 3.
\<close>

theorem numbering_from_zero_counterexample:
  "ScaleIndexer_init 3 [1] 1 = Inr indexer_3_1 \<and>
   idx_to_path indexer_3_1 0 = Inr [0] \<and>
   mapM (path_to_idx indexer_3_1) [[0], [1], [2], [3]] = Inr [0, 1, 2, 3]"
  by (rule conjI, rule init_3_1) code_simp

subsection \<open>C10: the low-pass test on the empty path\<close>

text \<open>
  Claim C10. For every indexer and every index that \<^verbatim>\<open>idx_to_path\<close> decodes to the
  empty tuple, \<^verbatim>\<open>is_low_pass\<close> returns no boolean: reading the last coordinate of the
  empty tuple raises an index error.
\<close>

theorem is_low_pass_empty_path:
  "idx_to_path self idx = Inr [] \<Longrightarrow> is_low_pass self idx = Inl IndexError"
  by (simp add: is_low_pass_def py_getitem_def)

theorem is_low_pass_empty_path_witness:
  "idx_to_path indexer_3_1 (- 1) = Inr [] \<and> is_low_pass indexer_3_1 (- 1) = Inl IndexError"
proof -
  have a: "idx_to_path indexer_3_1 (- 1) = Inr []" by code_simp
  from is_low_pass_empty_path [OF a] a show ?thesis by simp
qed

subsection \<open>C3: the order of the numbering\<close>

lemma all_paths_cases:
  assumes "ScaleIndexer_init j qs rm = Inr self" and "p \<in> set (get_all_paths self)"
  obtains "p = []" and "path_to_idx self p = Inr 0"
  | m where "m < length (concat (sc_paths self))" and "p = concat (sc_paths self) ! m"
      and "p \<noteq> []" and "path_to_idx self p = Inr (int m)"
proof (cases "p = []")
  case True
  with path_to_idx_Nil [OF assms(1)] that(1) show thesis by simp
next
  case False
  with assms(2) have "p \<in> set (concat (sc_paths self))"
    by (simp only: get_all_paths_init [OF assms(1)] set_ConsD) (metis set_ConsD)
  then obtain m where m: "m < length (concat (sc_paths self))" "concat (sc_paths self) ! m = p"
    by (auto simp only: in_set_conv_nth)
  with path_to_idx_nth [OF assms(1) m(1)] False that(2) show thesis by simp
qed

text \<open>
  Claim C3, as amended. For any two paths \<open>p\<close> and \<open>q\<close> of the full enumeration of a
  constructed indexer, the empty path included: if \<open>len(p) < len(q)\<close> then
  \<open>index(p) \<le> index(q)\<close>, and \<open>index(p) < index(q)\<close> when \<open>p\<close> is not the empty path; if
  \<open>len(p) = len(q)\<close> then \<open>index(p) < index(q)\<close> exactly when \<open>p\<close> precedes \<open>q\<close>
  lexicographically.
\<close>

theorem monotone_numbering:
  assumes "ScaleIndexer_init j qs rm = Inr self"
    and "p \<in> set (get_all_paths self)" and "q \<in> set (get_all_paths self)"
  shows "\<exists>a b. path_to_idx self p = Inr a \<and> path_to_idx self q = Inr b \<and>
           (length p < length q \<longrightarrow> a \<le> b \<and> (p \<noteq> [] \<longrightarrow> a < b)) \<and>
           (length p = length q \<longrightarrow> (a < b \<longleftrightarrow> tuple_lt p q))"
  using assms(1,2)
proof (cases rule: all_paths_cases)
  case 1
  note p = 1
  from assms(1,3) show ?thesis
  proof (cases rule: all_paths_cases)
    case 1
    with p show ?thesis by simp
  next
    case (2 n)
    with p show ?thesis by simp
  qed
next
  case (2 m)
  note p = 2
  from assms(1,3) show ?thesis
  proof (cases rule: all_paths_cases)
    case 1
    with p show ?thesis by simp
  next
    case (2 n)
    have "compare p q \<longleftrightarrow> m < n"
      using sorted_wrt_compare_nth [OF init_tables(1) [OF assms(1)] p(1) 2(1)] p(2) 2(2)
      by simp
    then have "(length p < length q \<longrightarrow> m < n) \<and>
               (length p = length q \<longrightarrow> (m < n \<longleftrightarrow> tuple_lt p q))"
      by (auto simp: compare_def)
    with p(4) 2(4) show ?thesis by auto
  qed
qed

theorem monotone_numbering_witness:
  "ScaleIndexer_init 4 [1, 1] 2 = Inr indexer_4_11 \<and>
   [3] \<in> set (get_all_paths indexer_4_11) \<and> [0, 2] \<in> set (get_all_paths indexer_4_11) \<and>
   length [3::int] < length [0, 2::int] \<and>
   path_to_idx indexer_4_11 [3] = Inr 3 \<and> path_to_idx indexer_4_11 [0, 2] = Inr 6"
proof -
  have a: "[3] \<in> set (get_all_paths indexer_4_11)" by code_simp
  have b: "[0, 2] \<in> set (get_all_paths indexer_4_11)" by code_simp
  have c: "path_to_idx indexer_4_11 [3] = Inr 3" by code_simp
  have d: "path_to_idx indexer_4_11 [0, 2] = Inr 6" by code_simp
  from monotone_numbering [OF init_4_11 a b] c d have "(3::int) < 6" by auto
  with init_4_11 a b c d show ?thesis by simp
qed

text \<open>
  The claim as written asks for a strictly smaller index whenever the path is shorter,
  the empty path included. In the scenario with octave count 3, densities \<open>[1]\<close> and
  maximal order 1 the empty path is shorter than \<open>(0,)\<close> and both have index 0.
\<close>

theorem monotone_numbering_counterexample:
  "ScaleIndexer_init 3 [1] 1 = Inr indexer_3_1 \<and>
   [] \<in> set (get_all_paths indexer_3_1) \<and> [0] \<in> set (get_all_paths indexer_3_1) \<and>
   length ([]::int list) < length [0::int] \<and>
   path_to_idx indexer_3_1 [] = Inr 0 \<and> path_to_idx indexer_3_1 [0] = Inr 0"
  by (rule conjI, rule init_3_1) code_simp

subsection \<open>C4: the concrete scenario\<close>

text \<open>
  Claim C4, as amended. Constructing the indexer with octave count 3, densities \<open>[1]\<close>
  and maximal order 1 yields \<open>JQ(1) = 3\<close> and the paths \<open>(0,), (1,), (2,), (3,)\<close> of
  order 1 with the indices 0, 1, 2, 3 respectively; \<open>path_to_idx(())\<close> is 0;
  \<open>is_low_pass(3)\<close> is true, \<open>is_low_pass(1)\<close> is false and \<open>r(3)\<close> is 1.
\<close>

theorem scenario_3_1:
  "ScaleIndexer_init 3 [1] 1 = Inr indexer_3_1 \<and>
   JQ indexer_3_1 1 = Inr 3 \<and>
   sc_paths indexer_3_1 = [[[0], [1], [2], [3]]] \<and>
   mapM (path_to_idx indexer_3_1) [[0], [1], [2], [3]] = Inr [0, 1, 2, 3] \<and>
   path_to_idx indexer_3_1 [] = Inr 0 \<and>
   is_low_pass indexer_3_1 3 = Inr True \<and>
   is_low_pass indexer_3_1 1 = Inr False \<and>
   r indexer_3_1 3 = Inr 1"
  by (rule conjI, rule init_3_1) code_simp

text \<open>
  The claim as written gives the indices 1, 2, 3, 4 and a true \<open>is_low_pass(4)\<close>: the
  low-pass path \<open>(3,)\<close> has index 3, and 4 is no index, so that \<open>is_low_pass(4)\<close> raises
  a key error.
\<close>

theorem scenario_3_1_counterexample:
  "ScaleIndexer_init 3 [1] 1 = Inr indexer_3_1 \<and>
   path_to_idx indexer_3_1 [3] = Inr 3 \<and>
   idx_to_path indexer_3_1 4 = Inl KeyError \<and>
   is_low_pass indexer_3_1 4 = Inl KeyError"
  by (rule conjI, rule init_3_1) code_simp

subsection \<open>C9: the collapse property\<close>

text \<open>
  Claim C9. With octave count 4, densities \<open>[1, 1]\<close> and maximal order 2, the paths of
  order 2 cut to their first coordinate and deduplicated are exactly the paths of order 1
  whose last coordinate is strictly less than \<open>JQ(1) = 4\<close>, the paths of order 1 that do
  not end with the low pass; this is also what the constructor's own check compares.
\<close>

theorem collapse_property:
  "ScaleIndexer_init 4 [1, 1] 2 = Inr indexer_4_11 \<and>
   JQ indexer_4_11 1 = Inr 4 \<and>
   remdups (map butlast (sc_paths indexer_4_11 ! 1)) = [[0], [1], [2], [3]] \<and>
   filter (\<lambda>p. last p < 4) (sc_paths indexer_4_11 ! 0) = [[0], [1], [2], [3]] \<and>
   ebind (but_last_column (sc_paths indexer_4_11 ! 1)) (\<lambda>cut. Inr (np_unique cut))
     = Inr (map fst (filter (\<lambda>(p, m). \<not> m)
              (zip (sc_paths indexer_4_11 ! 0) (low_pass_mask indexer_4_11 ! 0))))"
  by (rule conjI, rule init_4_11) code_simp

subsection \<open>C5: the enumerated paths are the admissible ones\<close>



subsection \<open>C6: the low-pass test\<close>

text \<open>
  Claim C6. For a constructed indexer and every enumerated path \<open>p\<close> of order \<open>k\<close>,
  \<open>JQ(k)\<close> is \<open>J * Qs[k-1]\<close> and \<open>is_low_pass(path_to_idx(p))\<close> returns true exactly when the
  last coordinate of \<open>p\<close> equals \<open>J * Qs[k-1]\<close>.
\<close>

theorem low_pass_correct:
  assumes "ScaleIndexer_init j qs rm = Inr self" and "1 \<le> k" and "k \<le> rm"
    and "p \<in> set (sc_paths self ! nat (k - 1))"
  shows "JQ self k = Inr (j * qs ! nat (k - 1)) \<and>
         ebind (path_to_idx self p) (is_low_pass self) = Inr (last p = j * qs ! nat (k - 1))"
proof -
  note f = init_fields [OF assms(1)]
  let ?flat = "concat (sc_paths self)"
  from assms(2,3) f(3) have i: "nat (k - 1) < nat (r_max self)" by linarith
  from create_sc_paths_Inr(2) [OF f(4) i] assms(2)
  have tab: "sc_paths_r self k = Inr (sc_paths self ! nat (k - 1))" by simp
  have len: "length p = nat k" by (rule sc_paths_r_shape(1) [OF tab assms(4)])
  with assms(2) have ne: "p \<noteq> []" by auto
  have kq: "nat k \<le> length qs" using sc_paths_r_Inr(1) [OF tab] f(2) by simp
  have "py_getitem qs (k - 1) = Inr (qs ! nat (k - 1))"
    using kq assms(2) by (subst py_getitem_nonneg) auto
  then have jq: "JQ self k = Inr (j * qs ! nat (k - 1))"
    using f(1,2) by (simp add: JQ_def)
  have "\<forall>i<nat k. 0 \<le> p ! i \<and> p ! i \<le> J self * Qs self ! i"
    using assms(4) f(3) assms(2,3) mem_sc_paths_r [OF tab, of p] by simp
  moreover have "nat k - 1 < nat k" using assms(2) by simp
  ultimately have "p ! (nat k - 1) \<le> J self * Qs self ! (nat k - 1)" by blast
  moreover have "nat k - 1 = nat (k - 1)" by simp
  ultimately have le: "last p \<le> j * qs ! nat (k - 1)"
    using ne len f(1,2) by (simp add: last_conv_nth)
  have "sc_paths self ! nat (k - 1) \<in> set (sc_paths self)"
    using i create_sc_paths_Inr(1) [OF f(4)] by simp
  with assms(4) have "p \<in> set ?flat" by auto
  then obtain m where m: "m < length ?flat" "?flat ! m = p"
    by (auto simp only: in_set_conv_nth)
  have pi: "path_to_idx self p = Inr (int m)" using path_to_idx_nth [OF assms(1) m(1)] m(2) by simp
  have ip: "idx_to_path self (int m) = Inr p" using idx_to_path_nth [OF assms(1) m(1)] m(2) by simp
  have "nat (int (length p) - 1) = length p - 1" by simp
  then have lp: "py_getitem p (- 1) = Inr (last p)"
    using ne by (simp add: py_getitem_def Let_def last_conv_nth)
  have rr: "r self (int m) = Inr k" using ip len assms(2) by (simp add: r_def)
  have "is_low_pass self (int m) = Inr (last p \<ge> j * qs ! nat (k - 1))"
    by (simp add: is_low_pass_def ip lp rr jq)
  moreover from le have "(last p \<ge> j * qs ! nat (k - 1)) = (last p = j * qs ! nat (k - 1))"
    by auto
  ultimately have "is_low_pass self (int m) = Inr (last p = j * qs ! nat (k - 1))"
    by simp
  with pi jq show ?thesis by simp
qed

theorem low_pass_correct_witness:
  "ScaleIndexer_init 4 [1, 1] 2 = Inr indexer_4_11 \<and> (1::int) \<le> 2 \<and> (2::int) \<le> 2 \<and>
   [1, 4] \<in> set (sc_paths indexer_4_11 ! nat (2 - 1)) \<and>
   [1, 3] \<in> set (sc_paths indexer_4_11 ! nat (2 - 1)) \<and>
   JQ indexer_4_11 2 = Inr 4 \<and>
   ebind (path_to_idx indexer_4_11 [1, 4]) (is_low_pass indexer_4_11) = Inr True \<and>
   ebind (path_to_idx indexer_4_11 [1, 3]) (is_low_pass indexer_4_11) = Inr False"
proof -
  have a: "[1, 4] \<in> set (sc_paths indexer_4_11 ! nat (2 - 1))" by code_simp
  have b: "[1, 3] \<in> set (sc_paths indexer_4_11 ! nat (2 - 1))" by code_simp
  have c: "(1::int) \<le> 2" "(2::int) \<le> 2" by simp_all
  from low_pass_correct [OF init_4_11 c a] low_pass_correct [OF init_4_11 c b]
    init_4_11 a b show ?thesis by simp
qed

subsection \<open>C7: key errors\<close>

lemma dict_getitem_KeyError: "dict_getitem d k = Inl KeyError \<longleftrightarrow> k \<notin> set (map fst d)"
  by (simp add: dict_getitem_def map_of_eq_None_iff [symmetric] split: option.splits)

lemma in_map_int_upt: "i \<in> set (map int [0..<n]) \<longleftrightarrow> 0 \<le> i \<and> i < int n"
proof
  assume "i \<in> set (map int [0..<n])"
  then show "0 \<le> i \<and> i < int n" by auto
next
  assume "0 \<le> i \<and> i < int n"
  then have "nat i \<in> set [0..<n]" and "i = int (nat i)" by auto
  then show "i \<in> set (map int [0..<n])" by (metis image_eqI set_map)
qed

text \<open>
  Claim C7. For a constructed indexer, \<open>path_to_idx\<close> raises a key error exactly when the
  path, cut at its first sentinel \<open>-1\<close> if it ends with one, is neither the empty path nor
  an enumerated path, and \<open>idx_to_path\<close> raises a key error exactly when the index is not
  \<open>-1\<close> and is outside the assigned indices, which are \<open>0, ..., max(1, N) - 1\<close> for \<open>N\<close>
  enumerated paths. The error is the result of the call: nothing catches it.
\<close>

theorem key_error:
  assumes "ScaleIndexer_init j qs rm = Inr self"
  shows "(path_to_idx self p = Inl KeyError \<longleftrightarrow>
            (if p \<noteq> [] \<and> last p = - 1 then takeWhile (\<lambda>x. x \<noteq> - 1) p else p)
              \<notin> insert [] (set (concat (sc_paths self)))) \<and>
         (idx_to_path self i = Inl KeyError \<longleftrightarrow> i \<noteq> - 1 \<and> i \<notin> set (get_all_idces self)) \<and>
         get_all_idces self = map int [0..<max 1 (length (concat (sc_paths self)))]"
proof (intro conjI)
  have keys: "set (map fst (p_coding self)) = insert [] (set (concat (sc_paths self)))"
    using get_all_paths_init [OF assms] by (simp add: get_all_paths_def)
  show "path_to_idx self p = Inl KeyError \<longleftrightarrow>
            (if p \<noteq> [] \<and> last p = - 1 then takeWhile (\<lambda>x. x \<noteq> - 1) p else p)
              \<notin> insert [] (set (concat (sc_paths self)))"
    unfolding path_to_idx_def Let_def dict_getitem_KeyError keys
    by (simp add: takeWhile_eq_take [symmetric])
  show idces: "get_all_idces self = map int [0..<max 1 (length (concat (sc_paths self)))]"
    by (rule get_all_idces_init [OF assms])
  show "idx_to_path self i = Inl KeyError \<longleftrightarrow> i \<noteq> - 1 \<and> i \<notin> set (get_all_idces self)"
    unfolding idx_to_path_KeyError [OF assms] idces in_map_int_upt by auto
qed

theorem key_error_witness:
  "ScaleIndexer_init 3 [1] 1 = Inr indexer_3_1 \<and> JQ indexer_3_1 1 = Inr 3 \<and>
   path_to_idx indexer_3_1 [5] = Inl KeyError \<and>
   idx_to_path indexer_3_1 4 = Inl KeyError \<and> idx_to_path indexer_3_1 (- 2) = Inl KeyError"
proof -
  have a: "[5] \<notin> insert [] (set (concat (sc_paths indexer_3_1)))" by code_simp
  have b: "get_all_idces indexer_3_1 = [0, 1, 2, 3]" by code_simp
  have c: "JQ indexer_3_1 1 = Inr 3" by code_simp
  from key_error [OF init_3_1, of "[5]" 4] a b
  have d: "path_to_idx indexer_3_1 [5] = Inl KeyError \<and> idx_to_path indexer_3_1 4 = Inl KeyError"
    by simp
  from key_error [OF init_3_1, of "[5]" "- 2"] b
  have "idx_to_path indexer_3_1 (- 2) = Inl KeyError" by simp
  with init_3_1 c d show ?thesis by simp
qed

subsection \<open>C8: no validation of the configuration\<close>

lemma mapM_Inl: "mapM f xs = Inl e \<Longrightarrow> \<exists>x\<in>set xs. f x = Inl e"
  by (induction xs) (auto simp: ebind_Inl_iff)

lemma filterM_Inl: "filterM f xs = Inl e \<Longrightarrow> \<exists>x\<in>set xs. f x = Inl e"
  by (induction xs) (auto simp: ebind_Inl_iff)

lemma py_getitem_Inl: "py_getitem xs i = Inl e \<Longrightarrow> e = IndexError"
  by (auto simp: py_getitem_def Let_def split: if_splits)

lemma py_floordiv_Inl: "py_floordiv a b = Inl e \<Longrightarrow> e = ZeroDivisionError"
  by (auto simp: py_floordiv_def split: if_splits)

lemma condition_all_Inl:
  "condition_all qs ord p = Inl e \<Longrightarrow> e = IndexError \<or> e = ZeroDivisionError"
proof (induction p arbitrary: ord)
  case Nil
  then show ?case by simp
next
  case (Cons i p)
  show ?case
  proof (cases p)
    case Nil
    with Cons.prems show ?thesis by simp
  next
    case (Cons j rest)
    with Cons.prems Cons.IH [of "ord + 1"] show ?thesis
      by (auto simp: ebind_Inl_iff split: if_splits dest: py_getitem_Inl py_floordiv_Inl)
  qed
qed

lemma sc_paths_r_Inl:
  assumes "sc_paths_r self k = Inl e"
  shows "e = IndexError \<or> e = ZeroDivisionError"
proof -
  from assms consider
    (ranges) "mapM (\<lambda>ord. ebind (JQ self (ord + 1)) (\<lambda>n. Inr (py_range (n + 1)))) (py_range k) = Inl e"
    | (filter) ranges where "filterM (condition self) (product_lists ranges) = Inl e"
    by (auto simp: sc_paths_r_def ebind_Inl_iff)
  then show ?thesis
  proof cases
    case ranges
    from mapM_Inl [OF this] show ?thesis
      by (auto simp: JQ_def ebind_Inl_iff dest: py_getitem_Inl)
  next
    case filter
    from filterM_Inl [OF this] show ?thesis
      by (auto simp: condition_def split: if_splits dest: condition_all_Inl)
  qed
qed

lemma create_sc_paths_Inl:
  "create_sc_paths self = Inl e \<Longrightarrow> e = IndexError \<or> e = ZeroDivisionError"
  unfolding create_sc_paths_def by (auto dest!: mapM_Inl sc_paths_r_Inl)

lemma create_sc_paths_too_few:
  assumes "1 \<le> r_max self" and "int (length (Qs self)) < r_max self"
  shows "\<exists>e. create_sc_paths self = Inl e"
proof (cases "create_sc_paths self")
  case (Inl e)
  then show ?thesis by blast
next
  case (Inr tabs)
  from assms(1) have "nat (r_max self) - 1 < nat (r_max self)" by simp
  from create_sc_paths_Inr(2) [OF Inr this]
  have "sc_paths_r self (r_max self) = Inr (tabs ! (nat (r_max self) - 1))"
    using assms(1) by (simp add: of_nat_diff)
  from sc_paths_r_Inr(1) [OF this] assms(2) show ?thesis by simp
qed

lemma init_no_orders:
  assumes "rm \<le> 0"
  shows "ScaleIndexer_init j qs rm =
     Inr \<lparr>J = j, Qs = qs, r_max = rm, sc_paths = [], p_coding = [([], 0)],
          p_decoding = [(0, [])], sc_idces = [], low_pass_mask = []\<rparr>"
proof -
  from assms have up: "[1..rm] = []" by simp
  have sorted: "py_sorted lt [x] = [x]" for lt :: "path \<Rightarrow> path \<Rightarrow> bool" and x
    by (simp add: py_sorted_def)
  have argsort: "np_argsort [0] = [0]" by (simp add: np_argsort_def)
  from assms have no2: "\<not> 2 \<le> rm" by simp
  show ?thesis
    by (simp add: ScaleIndexer_init_def new_self_def create_sc_paths_def up
        construct_path_coding_dicts_def py_enumerate_def dict_update_def
        create_sc_idces_def compute_low_pass_mask_def checks_def argsort sorted
        py_getitem_def py_assert_def no2)
qed

text \<open>
  Claim C8, as amended. The constructor validates nothing before the enumeration. With a
  maximal order of at least 1 and fewer density entries than the maximal order,
  construction fails during the path enumeration, with an index error or a zero-division
  error, and yields no indexer. With a non-positive maximal order construction succeeds,
  whatever the octave count and the densities are, and yields an indexer whose only path
  is the empty path.
\<close>

theorem no_validation:
  "(rm \<le> 0 \<longrightarrow>
      ScaleIndexer_init j qs rm =
        Inr \<lparr>J = j, Qs = qs, r_max = rm, sc_paths = [], p_coding = [([], 0)],
             p_decoding = [(0, [])], sc_idces = [], low_pass_mask = []\<rparr>) \<and>
   (1 \<le> rm \<and> int (length qs) < rm \<longrightarrow>
      (\<exists>e. create_sc_paths (new_self j qs rm) = Inl e \<and> ScaleIndexer_init j qs rm = Inl e \<and>
           (e = IndexError \<or> e = ZeroDivisionError)))"
proof (intro conjI impI)
  assume "rm \<le> 0"
  then show "ScaleIndexer_init j qs rm =
        Inr \<lparr>J = j, Qs = qs, r_max = rm, sc_paths = [], p_coding = [([], 0)],
             p_decoding = [(0, [])], sc_idces = [], low_pass_mask = []\<rparr>"
    by (rule init_no_orders)
next
  assume "1 \<le> rm \<and> int (length qs) < rm"
  then have "\<exists>e. create_sc_paths (new_self j qs rm) = Inl e"
    by (intro create_sc_paths_too_few) (simp_all add: new_self_def)
  then obtain e where e: "create_sc_paths (new_self j qs rm) = Inl e" ..
  then have "ScaleIndexer_init j qs rm = Inl e" by (simp add: ScaleIndexer_init_def)
  with e create_sc_paths_Inl [OF e]
  show "\<exists>e. create_sc_paths (new_self j qs rm) = Inl e \<and> ScaleIndexer_init j qs rm = Inl e \<and>
           (e = IndexError \<or> e = ZeroDivisionError)"
    by blast
qed

theorem no_validation_witness:
  "(- 2::int) \<le> 0 \<and>
   ScaleIndexer_init 5 [2, 0] (- 2) =
     Inr \<lparr>J = 5, Qs = [2, 0], r_max = - 2, sc_paths = [], p_coding = [([], 0)],
          p_decoding = [(0, [])], sc_idces = [], low_pass_mask = []\<rparr> \<and>
   (1::int) \<le> 2 \<and> int (length [1::int]) < 2 \<and>
   create_sc_paths (new_self 3 [1] 2) = Inl IndexError \<and>
   ScaleIndexer_init 3 [1] 2 = Inl IndexError"
proof -
  have a: "create_sc_paths (new_self 3 [1] 2) = Inl IndexError" by code_simp
  from no_validation [of 2 3 "[1]"] a
  have "ScaleIndexer_init 3 [1] 2 = Inl IndexError" by simp
  with no_validation [of "- 2" 5 "[2, 0]"] a show ?thesis by simp
qed

text \<open>
  The claim as written has every malformed configuration rejected with a configuration
  error before the enumeration. An octave count of 0 with no density and a maximal order
  of 0 yields an indexer, on which the queries answer; and a density list that is too
  short is found by the enumeration itself, as an index error.
\<close>

theorem no_validation_counterexample:
  "ScaleIndexer_init 0 [] 0 =
     Inr \<lparr>J = 0, Qs = [], r_max = 0, sc_paths = [], p_coding = [([], 0)],
          p_decoding = [(0, [])], sc_idces = [], low_pass_mask = []\<rparr> \<and>
   path_to_idx \<lparr>J = 0, Qs = [], r_max = 0, sc_paths = [], p_coding = [([], 0)],
          p_decoding = [(0, [])], sc_idces = [], low_pass_mask = []\<rparr> [] = Inr 0 \<and>
   create_sc_paths (new_self 3 [] 1) = Inl IndexError \<and>
   ScaleIndexer_init 3 [] 1 = Inl IndexError"
  by code_simp

end
